theory Spec2Isabelle
  imports Complex_Main "HOL-Library.Multiset" "HOL-Library.AList"
begin

section \<open>Text primitives\<close>

text \<open>
  Python's \<open>str\<close> is a sequence of code points. The model works on the code points
  0..255 (ASCII and the Latin-1 block, which cover the Spanish names the program
  handles): a \<open>char\<close> stands for the code point of the same number. The three
  tables below are those of \<open>str.lower\<close>, of \<open>\s\<close> / \<open>str.strip\<close> and of \<open>\w\<close> in
  that range.
\<close>

definition code :: "char \<Rightarrow> nat" where
  "code c = of_char c"

definition lower_char :: "char \<Rightarrow> char" where
  "lower_char c =
     (let n = code c
      in if (65 \<le> n \<and> n \<le> 90) \<or> (192 \<le> n \<and> n \<le> 214) \<or> (216 \<le> n \<and> n \<le> 222)
         then char_of (n + 32) else c)"

definition lower :: "string \<Rightarrow> string" where
  "lower s = map lower_char s"

definition is_space :: "char \<Rightarrow> bool" where
  "is_space c =
     (let n = code c
      in (9 \<le> n \<and> n \<le> 13) \<or> (28 \<le> n \<and> n \<le> 32) \<or> n = 133 \<or> n = 160)"

definition is_word :: "char \<Rightarrow> bool" where
  "is_word c =
     (let n = code c
      in (48 \<le> n \<and> n \<le> 57) \<or> (65 \<le> n \<and> n \<le> 90) \<or> n = 95 \<or> (97 \<le> n \<and> n \<le> 122)
         \<or> n = 170 \<or> n = 178 \<or> n = 179 \<or> n = 181 \<or> n = 185 \<or> n = 186
         \<or> (188 \<le> n \<and> n \<le> 190) \<or> (192 \<le> n \<and> n \<le> 214) \<or> (216 \<le> n \<and> n \<le> 246)
         \<or> 248 \<le> n)"

text \<open>\<open>needle in hay\<close> on strings: \<open>needle\<close> occurs as a contiguous substring.\<close>

fun is_prefix :: "string \<Rightarrow> string \<Rightarrow> bool" where
  "is_prefix [] s = True"
| "is_prefix (p # ps) [] = False"
| "is_prefix (p # ps) (c # cs) = (p = c \<and> is_prefix ps cs)"

fun str_in :: "string \<Rightarrow> string \<Rightarrow> bool" where
  "str_in needle [] = (needle = [])"
| "str_in needle (c # cs) = (is_prefix needle (c # cs) \<or> str_in needle cs)"

text \<open>\<open>s.strip()\<close>: whitespace removed at both ends.\<close>

definition strip :: "string \<Rightarrow> string" where
  "strip s = rev (dropWhile is_space (rev (dropWhile is_space s)))"

text \<open>
  \<open>re.sub(r"[...]+", " ", s)\<close> for a character class \<open>P\<close>: every maximal run of
  characters of the class becomes one space.
\<close>

function sub_runs :: "(char \<Rightarrow> bool) \<Rightarrow> string \<Rightarrow> string" where
  "sub_runs P [] = []"
| "sub_runs P (c # cs) =
     (if P c then CHR '' '' # sub_runs P (dropWhile P cs) else c # sub_runs P cs)"
  by pat_completeness auto
termination
  by (relation "measure (\<lambda>(P, s). length s)")
     (auto simp: length_dropWhile_le le_imp_less_Suc)

section \<open>Normalizer\<close>

text \<open>
  \<open>_LEGAL_SUFFIXES = re.compile(r"\b(s\.l\.u\.|slu|s\.l\.|sl|s\.a\.|sa)\b", re.IGNORECASE)\<close>.
  The alternatives are tried in the order written; each must be followed by a word
  boundary, and a failed boundary makes the engine try the next alternative.
\<close>

definition legal_suffix_alts :: "string list" where
  "legal_suffix_alts = [''s.l.u.'', ''slu'', ''s.l.'', ''sl'', ''s.a.'', ''sa'']"

definition next_is_word :: "string \<Rightarrow> bool" where
  "next_is_word s = (case s of [] \<Rightarrow> False | c # _ \<Rightarrow> is_word c)"

text \<open>A literal alternative matches case-insensitively at the start of \<open>s\<close>.\<close>

definition ci_prefix :: "string \<Rightarrow> string \<Rightarrow> bool" where
  "ci_prefix p s = (length p \<le> length s \<and> map lower_char (take (length p) s) = p)"

text \<open>
  \<open>\b\<close> holds where exactly one of the character before and the character after is a
  word character (the ends of the string count as non-word).
\<close>

definition alt_matches :: "string \<Rightarrow> string \<Rightarrow> bool" where
  "alt_matches s p =
     (ci_prefix p s \<and> is_word (s ! (length p - 1)) \<noteq> next_is_word (drop (length p) s))"

text \<open>
  A match attempt at the current position; \<open>pw\<close> tells whether the character before
  the position is a word character. The result is the length of the matched text.
\<close>

definition match_at :: "bool \<Rightarrow> string \<Rightarrow> nat option" where
  "match_at pw s =
     (if pw \<noteq> next_is_word s
      then map_option length (find (alt_matches s) legal_suffix_alts)
      else None)"

text \<open>
  \<open>_LEGAL_SUFFIXES.sub("", text)\<close>: scan from the left, delete each match and go on
  right after it; where nothing matches, keep the character and move one position.
\<close>

fun sub_legal :: "bool \<Rightarrow> string \<Rightarrow> string" where
  "sub_legal pw [] = []"
| "sub_legal pw (c # cs) =
     (case match_at pw (c # cs) of
        Some n \<Rightarrow> sub_legal (is_word ((c # cs) ! (n - 1))) (drop (n - 1) cs)
      | None \<Rightarrow> c # sub_legal (is_word c) cs)"

text \<open>\<open>_PUNCTUATION = re.compile(r"[.,;:()\-_/\\]+")\<close>; the last one is the backslash.\<close>

definition is_punct :: "char \<Rightarrow> bool" where
  "is_punct c = (c \<in> set (''.,;:()-_/'' @ [CHR 0x5C]))"

definition normalize :: "string \<Rightarrow> string" where
  "normalize text =
     (let text1 = lower text;
          text2 = sub_legal False text1;
          text3 = sub_runs is_punct text2;
          text4 = sub_runs is_space text3
      in strip text4)"

section \<open>Matcher\<close>

text \<open>
  A row of the recipient table \<open>df\<close>, its cells as \<open>str(...)\<close> gives them. The row
  label is the position in the list (the table is loaded with \<open>reset_index\<close>).
\<close>

record recipient =
  col_Nombre :: string
  col_Email :: string
  col_Direccion :: string

datatype matched_by = By_Nombre | By_Direccion

record match =
  pdf_name :: string
  cliente :: string
  email :: string
  score :: real
  matched_by :: matched_by
  selected :: bool
  row_idx :: nat

text \<open>
  \<open>fuzz.token_sort_ratio\<close> belongs to the rapidfuzz library: it is a parameter
  \<open>scorer\<close> of the model, a similarity between 0 and 100.

  Modelled from the spec: \<open>process.extractOne\<close>, also of rapidfuzz, is not part of
  the sources. It scores the query against every choice and returns the choice of
  maximal score with its score and position, the first one in the order of the
  choices when several tie, and \<open>None\<close> when there is no choice.
\<close>

fun extract_from ::
  "(string \<Rightarrow> string \<Rightarrow> real) \<Rightarrow> string \<Rightarrow> nat \<Rightarrow> string list \<Rightarrow>
   (string \<times> real \<times> nat) option \<Rightarrow> (string \<times> real \<times> nat) option" where
  "extract_from scorer query i [] best = best"
| "extract_from scorer query i (choice # choices) best =
     (let s = scorer query choice
      in extract_from scorer query (Suc i) choices
           (case best of
              None \<Rightarrow> Some (choice, s, i)
            | Some (c', s', i') \<Rightarrow> if s' < s then Some (choice, s, i) else best))"

definition extractOne ::
  "(string \<Rightarrow> string \<Rightarrow> real) \<Rightarrow> string \<Rightarrow> string list \<Rightarrow> (string \<times> real \<times> nat) option" where
  "extractOne scorer query choices = extract_from scorer query 0 choices None"

text \<open>The test \<open>result and result[1] >= 80\<close>; it yields the score and the index.\<close>

definition accepted :: "(string \<times> real \<times> nat) option \<Rightarrow> (real \<times> nat) option" where
  "accepted result =
     (case result of
        None \<Rightarrow> None
      | Some (c, s, idx) \<Rightarrow> if 80 \<le> s then Some (s, idx) else None)"

definition new_match :: "recipient list \<Rightarrow> string \<Rightarrow> real \<Rightarrow> nat \<Rightarrow> matched_by \<Rightarrow> match" where
  "new_match df name s idx by =
     \<lparr>pdf_name = name, cliente = col_Nombre (df ! idx), email = col_Email (df ! idx),
      score = s, matched_by = by, selected = True, row_idx = idx\<rparr>"

text \<open>One turn of the loop of \<open>run_matching\<close>: the document is matched or unmatched.\<close>

datatype verdict = Matched match | Unmatched string

definition match_one ::
  "(string \<Rightarrow> string \<Rightarrow> real) \<Rightarrow> recipient list \<Rightarrow> string list \<Rightarrow> string list \<Rightarrow> string \<Rightarrow> verdict" where
  "match_one scorer df nombres_norm dirs_norm name =
     (let query_norm = normalize name
      in case accepted (extractOne scorer query_norm nombres_norm) of
           Some (s, idx) \<Rightarrow> Matched (new_match df name s idx By_Nombre)
         | None \<Rightarrow>
             (case accepted (extractOne scorer query_norm dirs_norm) of
                Some (s, idx) \<Rightarrow> Matched (new_match df name s idx By_Direccion)
              | None \<Rightarrow> Unmatched name))"

fun matching_loop ::
  "(string \<Rightarrow> verdict) \<Rightarrow> string list \<Rightarrow> match list \<times> string list \<Rightarrow> match list \<times> string list" where
  "matching_loop step [] acc = acc"
| "matching_loop step (name # names) (matches, unmatched) =
     (case step name of
        Matched m \<Rightarrow> matching_loop step names (matches @ [m], unmatched)
      | Unmatched u \<Rightarrow> matching_loop step names (matches, unmatched @ [u]))"

text \<open>
  \<open>pdf_files\<close> is a dict from document name to content: an association list in
  insertion order, whose keys a dict keeps distinct. The loop visits its keys.
\<close>

definition run_matching ::
  "(string \<Rightarrow> string \<Rightarrow> real) \<Rightarrow> (string \<times> 'b) list \<Rightarrow> recipient list \<Rightarrow> match list \<times> string list" where
  "run_matching scorer pdf_files df =
     (let nombres_norm = map (\<lambda>r. normalize (col_Nombre r)) df;
          dirs_norm = map (\<lambda>r. normalize (col_Direccion r)) df
      in matching_loop (match_one scorer df nombres_norm dirs_norm) (map fst pdf_files) ([], []))"

text \<open>
  The best-match search in the spec's words, to compare \<open>extractOne\<close> with: the
  maximal score over the choices, and the first position that reaches it.
\<close>

definition best_score :: "(string \<Rightarrow> string \<Rightarrow> real) \<Rightarrow> string \<Rightarrow> string list \<Rightarrow> real" where
  "best_score scorer query choices = Max (set (map (scorer query) choices))"

definition best_index :: "(string \<Rightarrow> string \<Rightarrow> real) \<Rightarrow> string \<Rightarrow> string list \<Rightarrow> nat" where
  "best_index scorer query choices =
     length (takeWhile (\<lambda>c. scorer query c \<noteq> best_score scorer query choices) choices)"

text \<open>A scorer for worked examples: 100 for equal strings, 0 otherwise.\<close>

definition exact_scorer :: "string \<Rightarrow> string \<Rightarrow> real" where
  "exact_scorer a b = (if a = b then 100 else 0)"

text \<open>A recipient table of two rows for worked examples.\<close>

definition table0 :: "recipient list" where
  "table0 =
     [\<lparr>col_Nombre = ''Acme SL'', col_Email = ''a@x.es'', col_Direccion = ''Calle Uno''\<rparr>,
      \<lparr>col_Nombre = ''Beta'', col_Email = ''b@x.es'', col_Direccion = ''Gran Via''\<rparr>]"

section \<open>Dispatch\<close>

text \<open>
  The handler of the send button. What it touches outside the program is a parameter
  of the model, the record \<open>world\<close>:
  \<^item> \<open>transport recipient name content\<close> is the call of \<open>send_email\<close> with the SMTP
    settings of the run: \<open>None\<close> when it returns, \<open>Some msg\<close> when it raises an exception
    \<open>exc\<close> with \<open>str(exc) = msg\<close>;
  \<^item> \<open>clock idx\<close> is the formatted \<open>datetime.now()\<close> read for item \<open>idx\<close>;
  \<^item> \<open>key_error name\<close> is \<open>str(KeyError(name))\<close>, raised by the lookup of a name that
    \<open>pdf_files\<close> does not hold;
  \<^item> \<open>cancel_click p\<close> tells whether the operator's cancel action, which sets
    \<open>cancel_requested\<close>, has come in just before the \<open>p\<close>-th read of the flag. Item
    \<open>idx\<close> reads the flag twice: read \<open>2 * idx\<close> at the top of the loop body, read
    \<open>2 * idx + 1\<close> in the throttling test.
\<close>

record world =
  transport :: "string \<Rightarrow> string \<Rightarrow> string \<Rightarrow> string option"
  clock :: "nat \<Rightarrow> string"
  key_error :: "string \<Rightarrow> string"
  cancel_click :: "nat \<Rightarrow> bool"

datatype estado = Enviado | Error

record log_entry =
  nombre_archivo :: string
  email_destino :: string
  estado :: estado
  mensaje_error :: string
  timestamp :: string

text \<open>The part of \<open>st.session_state\<close> that the handler reads and writes.\<close>

record session =
  st_pdf_files :: "(string \<times> string) list"
  st_matches :: "match list"
  st_send_log :: "log_entry list"
  st_sending :: bool
  st_cancel_requested :: bool

text \<open>What the run does to the outside: calls of \<open>send_email\<close> and throttling pauses.\<close>

datatype event = Send nat | Pause nat nat

datatype outcome = Completed | Cancelled

text \<open>The cancel action of the operator, if it comes in before read \<open>p\<close>.\<close>

definition operator :: "world \<Rightarrow> nat \<Rightarrow> session \<Rightarrow> session" where
  "operator w p s = (if cancel_click w p then s\<lparr>st_cancel_requested := True\<rparr> else s)"

text \<open>
  The \<open>try\<close> block for one item: the lookup of the content, the call of the transport
  and the entry appended to the log, with the events of the item.
\<close>

definition send_item :: "world \<Rightarrow> session \<Rightarrow> nat \<Rightarrow> match \<Rightarrow> log_entry \<times> event list" where
  "send_item w s idx m =
     (let name = pdf_name m; recipient = email m; ts = clock w idx
      in case map_of (st_pdf_files s) name of
           None \<Rightarrow>
             (\<lparr>nombre_archivo = name, email_destino = recipient, estado = Error,
               mensaje_error = key_error w name, timestamp = ts\<rparr>, [])
         | Some pdf_bytes \<Rightarrow>
             (case transport w recipient name pdf_bytes of
                None \<Rightarrow>
                  (\<lparr>nombre_archivo = name, email_destino = recipient, estado = Enviado,
                    mensaje_error = [], timestamp = ts\<rparr>, [Send idx])
              | Some msg \<Rightarrow>
                  (\<lparr>nombre_archivo = name, email_destino = recipient, estado = Error,
                    mensaje_error = msg, timestamp = ts\<rparr>, [Send idx])))"

text \<open>
  The loop \<open>for idx, match in enumerate(selected_matches)\<close>. Its state is the session,
  the local list \<open>send_log\<close> and the events so far; it ends \<open>Cancelled\<close> through the
  \<open>break\<close> and \<open>Completed\<close> when the sequence is exhausted.
\<close>

fun dispatch_loop ::
  "world \<Rightarrow> nat \<Rightarrow> nat \<Rightarrow> nat \<Rightarrow> match list \<Rightarrow> session \<times> log_entry list \<times> event list \<Rightarrow>
   session \<times> log_entry list \<times> event list \<times> outcome" where
  "dispatch_loop w throttle_seconds total_n idx [] (s, send_log, evs) =
     (s, send_log, evs, Completed)"
| "dispatch_loop w throttle_seconds total_n idx (m # ms) (s, send_log, evs) =
     (let s1 = operator w (2 * idx) s
      in if st_cancel_requested s1 then (s1, send_log, evs, Cancelled)
         else
           let (entry, sent) = send_item w s1 idx m;
               s2 = operator w (2 * idx + 1) s1;
               pause = (if idx < total_n - 1 \<and> \<not> st_cancel_requested s2
                        then [Pause idx throttle_seconds] else [])
           in dispatch_loop w throttle_seconds total_n (Suc idx) ms
                (s2, send_log @ [entry], evs @ sent @ pause))"

text \<open>The three assignments on entry, before the loop.\<close>

definition begin_run :: "session \<Rightarrow> session" where
  "begin_run s = s\<lparr>st_sending := True, st_cancel_requested := False, st_send_log := []\<rparr>"

text \<open>The handler: entry, loop over the selected matches, the three assignments after it.\<close>

definition send_handler ::
  "world \<Rightarrow> nat \<Rightarrow> session \<Rightarrow> session \<times> event list \<times> outcome" where
  "send_handler w throttle_seconds s =
     (let selected_matches = filter selected (st_matches s);
          total_n = length selected_matches;
          (s', send_log, evs, out) =
             dispatch_loop w throttle_seconds total_n 0 selected_matches (begin_run s, [], [])
      in (s'\<lparr>st_send_log := send_log, st_sending := False, st_cancel_requested := False\<rparr>,
          evs, out))"

text \<open>
  The entry of item \<open>idx\<close>, and the events of a run of \<open>total_n\<close> items that nothing
  interrupts, for the statements below.
\<close>

definition entry_of :: "world \<Rightarrow> session \<Rightarrow> nat \<Rightarrow> match \<Rightarrow> log_entry" where
  "entry_of w s idx m = fst (send_item w s idx m)"

definition sends_of :: "world \<Rightarrow> session \<Rightarrow> nat \<Rightarrow> match \<Rightarrow> event list" where
  "sends_of w s idx m = snd (send_item w s idx m)"

text \<open>Five selected matches and a session holding them, for worked examples.\<close>

definition match0 :: "string \<Rightarrow> string \<Rightarrow> match" where
  "match0 name addr =
     \<lparr>pdf_name = name, cliente = name, email = addr, score = 100, matched_by = By_Nombre,
      selected = True, row_idx = 0\<rparr>"

definition session0 :: session where
  "session0 =
     \<lparr>st_pdf_files = [(''a'', ''A''), (''b'', ''B''), (''c'', ''C''), (''d'', ''D''), (''e'', ''E'')],
      st_matches = [match0 ''a'' ''a@x.es'', match0 ''b'' ''b@x.es'', match0 ''c'' ''c@x.es'',
                    (match0 ''z'' ''z@x.es'')\<lparr>selected := False\<rparr>,
                    match0 ''d'' ''d@x.es'', match0 ''e'' ''e@x.es''],
      st_send_log = [\<lparr>nombre_archivo = ''old'', email_destino = ''o@x.es'', estado = Enviado,
                      mensaje_error = [], timestamp = ''t''\<rparr>],
      st_sending = False, st_cancel_requested = True\<rparr>"

definition world0 :: "(nat \<Rightarrow> bool) \<Rightarrow> world" where
  "world0 clicks =
     \<lparr>transport = (\<lambda>recipient name content. if name = ''c'' then Some ''refused'' else None),
      clock = (\<lambda>idx. ''t''), key_error = (\<lambda>name. name), cancel_click = clicks\<rparr>"

section \<open>Letter splitter\<close>

text \<open>
  The document is the list of the texts of its pages, \<open>doc[i].get_text()\<close> for page
  \<open>i\<close>; its other content is opaque to the program. A letter cut out of it is given by
  the arguments \<open>from_page\<close> and \<open>to_page\<close> of \<open>insert_pdf\<close>.
\<close>

definition indices_inicio :: "string list \<Rightarrow> string \<Rightarrow> nat list" where
  "indices_inicio doc cif = filter (\<lambda>i. str_in cif (doc ! i)) [0..<length doc]"

text \<open>\<open>texto.split("\n")\<close>.\<close>

fun split_on :: "char \<Rightarrow> string \<Rightarrow> string list" where
  "split_on d [] = [[]]"
| "split_on d (c # cs) =
     (if c = d then [] # split_on d cs
      else case split_on d cs of
             [] \<Rightarrow> [[c]]
           | l # ls \<Rightarrow> (c # l) # ls)"

definition lineas_of :: "string \<Rightarrow> string list" where
  "lineas_of texto = filter (\<lambda>l. l \<noteq> []) (map strip (split_on (CHR 0x0A) texto))"

text \<open>
  The loop over \<open>enumerate(lineas)\<close> that looks for the client's name; its result is
  \<open>nombre_cliente\<close> when the loop is left, empty when no line gave a name. The test
  \<open>not nombre_cliente\<close> of the source does not appear: the variable is empty whenever the
  test is reached, since each assignment to it is followed by \<open>break\<close>.
\<close>

definition patron_A :: "string \<Rightarrow> string \<Rightarrow> bool" where
  "patron_A linea siguiente =
     (str_in ''ejercicio'' (lower linea) \<and> str_in ''es de:'' (lower linea)
      \<and> lower siguiente \<noteq> ''euros'')"

definition patron_B :: "string \<Rightarrow> string \<Rightarrow> string \<Rightarrow> bool" where
  "patron_B cif linea candidato =
     (str_in cif linea \<and> \<not> str_in ''Muy Sr'' candidato \<and> \<not> str_in ''URANO'' candidato)"

fun find_nombre :: "string \<Rightarrow> string list \<Rightarrow> string" where
  "find_nombre cif [] = []"
| "find_nombre cif [linea] = []"
| "find_nombre cif (linea # siguiente # resto) =
     (if patron_A linea siguiente then siguiente
      else if patron_B cif linea siguiente then siguiente
      else find_nombre cif (siguiente # resto))"

text \<open>\<open>f"Cliente_{idx + 1:03d}"\<close>: decimal digits, padded with zeros to width 3.\<close>

definition digit_char :: "nat \<Rightarrow> char" where
  "digit_char d = char_of (48 + d)"

function decimal :: "nat \<Rightarrow> string" where
  "decimal n = (if n < 10 then [digit_char n] else decimal (n div 10) @ [digit_char (n mod 10)])"
  by pat_completeness auto
termination
  by (relation "measure id") auto

declare decimal.simps [simp del]

definition cliente_nnn :: "nat \<Rightarrow> string" where
  "cliente_nnn idx =
     (let ds = decimal (idx + 1)
      in ''Cliente_'' @ replicate (3 - length ds) (CHR ''0'') @ ds)"

text \<open>\<open>re.sub(r'[\\/*?:"<>|]', "", nombre_cliente).strip()[:80]\<close>.\<close>

definition is_illegal :: "char \<Rightarrow> bool" where
  "is_illegal c = (c \<in> set ([CHR 0x5C, CHR 0x22] @ ''/*?:<>|''))"

definition limpiar :: "string \<Rightarrow> string" where
  "limpiar nombre = take 80 (strip (filter (\<lambda>c. \<not> is_illegal c) nombre))"

record letter =
  nombre_limpio :: string
  from_page :: nat
  to_page :: nat

text \<open>One turn of the loop over \<open>enumerate(indices_inicio)\<close>.\<close>

definition nombre_cliente_of :: "string list \<Rightarrow> string \<Rightarrow> nat \<Rightarrow> nat \<Rightarrow> string" where
  "nombre_cliente_of doc cif idx start_page =
     (let nombre = find_nombre cif (lineas_of (doc ! start_page))
      in if nombre = [] then cliente_nnn idx else nombre)"

definition make_letter :: "string list \<Rightarrow> string \<Rightarrow> nat list \<Rightarrow> nat \<Rightarrow> letter" where
  "make_letter doc cif indices idx =
     (let start_page = indices ! idx;
          end_page = (if idx + 1 < length indices then indices ! (idx + 1) - 1
                      else length doc - 1);
          limpio = limpiar (nombre_cliente_of doc cif idx start_page)
      in \<lparr>nombre_limpio = (if limpio = [] then cliente_nnn idx else limpio),
          from_page = start_page, to_page = end_page\<rparr>)"

text \<open>
  The loop, turn by turn from \<open>idx\<close>: each letter is stored under its name in
  \<open>pdf_dict\<close>, an association list in insertion order; storing under a name already
  present replaces the letter stored before.
\<close>

function split_loop ::
  "string list \<Rightarrow> string \<Rightarrow> nat list \<Rightarrow> nat \<Rightarrow> (string \<times> nat \<times> nat) list \<Rightarrow>
   (string \<times> nat \<times> nat) list" where
  "split_loop doc cif indices idx pdf_dict =
     (if idx < length indices
      then let l = make_letter doc cif indices idx
           in split_loop doc cif indices (Suc idx)
                (AList.update (nombre_limpio l) (from_page l, to_page l) pdf_dict)
      else pdf_dict)"
  by pat_completeness auto
termination
  by (relation "measure (\<lambda>(doc, cif, indices, idx, pdf_dict). length indices - idx)") auto

declare split_loop.simps [simp del]

definition split_pdf_by_cif :: "string list \<Rightarrow> string \<Rightarrow> (string \<times> nat \<times> nat) list" where
  "split_pdf_by_cif doc cif =
     (let indices = indices_inicio doc cif
      in if indices = [] then [] else split_loop doc cif indices 0 [])"

text \<open>The letters in the order the loop makes them, before they are stored.\<close>

definition letters_of :: "string list \<Rightarrow> string \<Rightarrow> letter list" where
  "letters_of doc cif =
     (let indices = indices_inicio doc cif
      in map (make_letter doc cif indices) [0..<length indices])"

text \<open>
  The label inference in the spec's words, to compare \<open>find_nombre\<close> with: Pattern A
  takes the line after a line with "ejercicio" and "es de:", unless it is "euros";
  Pattern B is the fallback and takes the line after the first line that contains the
  marker, unless it contains "Muy Sr" or "URANO".
\<close>

fun spec_patron_A :: "string list \<Rightarrow> string option" where
  "spec_patron_A [] = None"
| "spec_patron_A [linea] = None"
| "spec_patron_A (linea # siguiente # resto) =
     (if patron_A linea siguiente then Some siguiente else spec_patron_A (siguiente # resto))"

fun spec_patron_B :: "string \<Rightarrow> string list \<Rightarrow> string option" where
  "spec_patron_B cif [] = None"
| "spec_patron_B cif [linea] = None"
| "spec_patron_B cif (linea # siguiente # resto) =
     (if str_in cif linea
      then (if patron_B cif linea siguiente then Some siguiente else None)
      else spec_patron_B cif (siguiente # resto))"

definition spec_label :: "string \<Rightarrow> nat \<Rightarrow> string list \<Rightarrow> string" where
  "spec_label cif idx lineas =
     (case spec_patron_A lineas of
        Some nombre \<Rightarrow> nombre
      | None \<Rightarrow>
          (case spec_patron_B cif lineas of
             Some nombre \<Rightarrow> nombre
           | None \<Rightarrow> cliente_nnn idx))"

text \<open>Line \<open>i\<close> gives a name: it has a following line and one of the patterns accepts.\<close>

definition fires :: "string \<Rightarrow> string list \<Rightarrow> nat \<Rightarrow> bool" where
  "fires cif lineas i =
     (Suc i < length lineas
      \<and> (patron_A (lineas ! i) (lineas ! Suc i) \<or> patron_B cif (lineas ! i) (lineas ! Suc i)))"

text \<open>Documents for worked examples; \<open>B73798340\<close> is the default marker of the program.\<close>

definition doc6 :: "string \<Rightarrow> string \<Rightarrow> string list" where
  "doc6 n1 n2 =
     [''NATU B73798340'' @ [CHR 0x0A] @ n1 @ [CHR 0x0A] @ ''Muy Sr. nuestro:'',
      ''pagina 2'', ''pagina 3'',
      ''NATU B73798340'' @ [CHR 0x0A] @ n2 @ [CHR 0x0A] @ ''Muy Sr. nuestro:'',
      ''pagina 2'', ''pagina 3'']"

text \<open>Storing one letter in \<open>pdf_dict\<close>, as the loop does.\<close>

definition store :: "(string \<times> nat \<times> nat) list \<Rightarrow> letter \<Rightarrow> (string \<times> nat \<times> nat) list" where
  "store = (\<lambda>pdf_dict l. AList.update (nombre_limpio l) (from_page l, to_page l) pdf_dict)"

text \<open>
  Two first pages for worked examples: on the first the line after the first marker line
  is rejected and a later marker line gives the name; on the second a marker line gives
  a name before the line with "ejercicio" and "es de:" is reached.
\<close>

definition page_two_markers :: string where
  "page_two_markers =
     ''B73798340'' @ [CHR 0x0A] @ ''URANO SL'' @ [CHR 0x0A] @ ''CIF B73798340'' @ [CHR 0x0A]
     @ ''ACME''"

definition page_marker_first :: string where
  "page_marker_first =
     ''B73798340'' @ [CHR 0x0A] @ ''ACME'' @ [CHR 0x0A] @ ''Saldo ejercicio 2023 es de:''
     @ [CHR 0x0A] @ ''BETA''"

section \<open>Properties of the text primitives\<close>

section \<open>Properties of the matcher\<close>

subsection \<open>The best-match search\<close>

lemma best_score_Cons:
  "cs \<noteq> [] \<Longrightarrow> best_score sc q (c # cs) = max (sc q c) (best_score sc q cs)"
  by (simp add: best_score_def)

lemma best_score_ge: "c \<in> set cs \<Longrightarrow> sc q c \<le> best_score sc q cs"
  by (simp add: best_score_def)

lemma best_score_in: "cs \<noteq> [] \<Longrightarrow> \<exists>c\<in>set cs. best_score sc q cs = sc q c"
proof -
  assume "cs \<noteq> []"
  then have "Max (set (map (sc q) cs)) \<in> set (map (sc q) cs)"
    by (intro Max_in) auto
  then show ?thesis by (auto simp: best_score_def)
qed

lemma best_score_gt_iff:
  "cs \<noteq> [] \<Longrightarrow> (\<exists>c\<in>set cs. s < sc q c) \<longleftrightarrow> s < best_score sc q cs"
  using best_score_in[of cs sc q] best_score_ge[of _ cs sc q]
  by (metis le_less_trans not_less)

lemma best_index_Cons:
  "cs \<noteq> [] \<Longrightarrow> best_index sc q (c # cs) =
     (if best_score sc q cs \<le> sc q c then 0 else Suc (best_index sc q cs))"
  by (auto simp: best_index_def best_score_Cons max_def)

lemma extract_from_Some:
  "extract_from sc q i cs (Some (c', s', i')) =
     (if \<exists>c\<in>set cs. s' < sc q c
      then Some (cs ! best_index sc q cs, best_score sc q cs, i + best_index sc q cs)
      else Some (c', s', i'))"
proof (induction cs arbitrary: i c' s' i')
  case Nil
  then show ?case by simp
next
  case (Cons c cs)
  show ?case
  proof (cases "cs = []")
    case True
    then show ?thesis by (simp add: best_index_def best_score_def)
  next
    case False
    have ex: "\<And>s. (\<exists>x\<in>set cs. s < sc q x) \<longleftrightarrow> s < best_score sc q cs"
      by (rule best_score_gt_iff[OF False])
    show ?thesis
      by (simp add: Cons.IH Let_def ex best_index_Cons[OF False] best_score_Cons[OF False] max_def)
  qed
qed

lemma extractOne_best:
  "extractOne sc q cs =
     (if cs = [] then None
      else Some (cs ! best_index sc q cs, best_score sc q cs, best_index sc q cs))"
proof (cases cs)
  case Nil
  then show ?thesis by (simp add: extractOne_def)
next
  case (Cons c cs')
  show ?thesis
  proof (cases "cs' = []")
    case True
    with Cons show ?thesis by (simp add: extractOne_def best_index_def best_score_def)
  next
    case False
    have ex: "\<And>s. (\<exists>x\<in>set cs'. s < sc q x) \<longleftrightarrow> s < best_score sc q cs'"
      by (rule best_score_gt_iff[OF False])
    show ?thesis unfolding Cons
      by (simp add: extractOne_def extract_from_Some Let_def ex best_index_Cons[OF False] best_score_Cons[OF False] max_def)
  qed
qed

lemma best_index_less: "cs \<noteq> [] \<Longrightarrow> best_index sc q cs < length cs"
proof -
  assume ne: "cs \<noteq> []"
  obtain c where c: "c \<in> set cs" "best_score sc q cs = sc q c"
    using best_score_in[OF ne, of sc q] by blast
  have "takeWhile (\<lambda>c. sc q c \<noteq> best_score sc q cs) cs \<noteq> cs"
    using c by (auto simp: takeWhile_eq_all_conv)
  then have "length (takeWhile (\<lambda>c. sc q c \<noteq> best_score sc q cs) cs) \<noteq> length cs"
    by (metis takeWhile_eq_take take_all order_refl)
  then show ?thesis
    using length_takeWhile_le[of "\<lambda>c. sc q c \<noteq> best_score sc q cs" cs]
    by (simp add: best_index_def)
qed

subsection \<open>The matching loop\<close>

lemma match_one_name:
  "match_one sc df nn dn name = Matched m \<Longrightarrow> pdf_name m = name"
  "match_one sc df nn dn name = Unmatched u \<Longrightarrow> u = name"
  by (auto simp: match_one_def new_match_def Let_def split: option.splits prod.splits)

lemma matching_loop_mset:
  assumes "\<And>n m. step n = Matched m \<Longrightarrow> pdf_name m = n"
    and "\<And>n u. step n = Unmatched u \<Longrightarrow> u = n"
    and "matching_loop step names (ms0, us0) = (ms, us)"
  shows "mset (map pdf_name ms) + mset us = mset (map pdf_name ms0) + mset us0 + mset names"
  using assms(3)
proof (induction names arbitrary: ms0 us0)
  case Nil
  then show ?case by simp
next
  case (Cons n names)
  show ?case
  proof (cases "step n")
    case (Matched m)
    with Cons.prems have "matching_loop step names (ms0 @ [m], us0) = (ms, us)" by simp
    from Cons.IH[OF this] assms(1)[OF Matched] show ?thesis by simp
  next
    case (Unmatched u)
    with Cons.prems have "matching_loop step names (ms0, us0 @ [u]) = (ms, us)" by simp
    from Cons.IH[OF this] assms(2)[OF Unmatched] show ?thesis by simp
  qed
qed

text \<open>
  C1. Whatever the documents and the recipient table, \<open>run_matching\<close> puts every
  document name in exactly one place: the names of the matches together with the
  unmatched names are the keys of \<open>pdf_files\<close>, each once (equal as multisets, and
  without repetition), and no name is both matched and unmatched.
\<close>

theorem run_matching_partition:
  assumes "distinct (map fst pdf_files)"
    and "run_matching scorer pdf_files df = (matches, unmatched)"
  shows "mset (map pdf_name matches) + mset unmatched = mset (map fst pdf_files)
       \<and> distinct (map pdf_name matches @ unmatched)
       \<and> set (map pdf_name matches) \<inter> set unmatched = {}"
proof -
  from assms(2) have loop:
    "matching_loop (match_one scorer df (map (\<lambda>r. normalize (col_Nombre r)) df)
        (map (\<lambda>r. normalize (col_Direccion r)) df)) (map fst pdf_files) ([], [])
     = (matches, unmatched)"
    by (simp add: run_matching_def Let_def)
  have "mset (map pdf_name matches) + mset unmatched
      = mset (map pdf_name ([]::match list)) + mset [] + mset (map fst pdf_files)"
    by (rule matching_loop_mset[OF _ _ loop]) (auto dest: match_one_name)
  then have eq: "mset (map pdf_name matches) + mset unmatched = mset (map fst pdf_files)"
    by simp
  then have "mset (map pdf_name matches @ unmatched) = mset (map fst pdf_files)" by simp
  then have d: "distinct (map pdf_name matches @ unmatched)"
    using assms(1) by (metis mset_eq_imp_distinct_iff)
  from eq d show ?thesis by auto
qed

theorem run_matching_partition_witness:
  "distinct (map fst [(''acme'', ''x''), (''GRAN-VIA'', ''y''), (''zeta'', ''z'')])
   \<and> run_matching exact_scorer [(''acme'', ''x''), (''GRAN-VIA'', ''y''), (''zeta'', ''z'')]
        [\<lparr>col_Nombre = ''Acme SL'', col_Email = ''a@x.es'', col_Direccion = ''Calle Uno''\<rparr>,
         \<lparr>col_Nombre = ''Beta'', col_Email = ''b@x.es'', col_Direccion = ''Gran Via''\<rparr>]
      = ([\<lparr>pdf_name = ''acme'', cliente = ''Acme SL'', email = ''a@x.es'', score = 100,
            matched_by = By_Nombre, selected = True, row_idx = 0\<rparr>,
          \<lparr>pdf_name = ''GRAN-VIA'', cliente = ''Beta'', email = ''b@x.es'', score = 100,
            matched_by = By_Direccion, selected = True, row_idx = 1\<rparr>],
         [''zeta''])
   \<and> mset [''acme'', ''GRAN-VIA''] + mset [''zeta''] = mset [''acme'', ''GRAN-VIA'', ''zeta'']
   \<and> distinct ([''acme'', ''GRAN-VIA''] @ [''zeta''])"
proof -
  have d: "distinct (map fst [(''acme'', ''x''), (''GRAN-VIA'', ''y''), (''zeta'', ''z'')])"
    by simp
  have r: "run_matching exact_scorer [(''acme'', ''x''), (''GRAN-VIA'', ''y''), (''zeta'', ''z'')]
        [\<lparr>col_Nombre = ''Acme SL'', col_Email = ''a@x.es'', col_Direccion = ''Calle Uno''\<rparr>,
         \<lparr>col_Nombre = ''Beta'', col_Email = ''b@x.es'', col_Direccion = ''Gran Via''\<rparr>]
      = ([\<lparr>pdf_name = ''acme'', cliente = ''Acme SL'', email = ''a@x.es'', score = 100,
            matched_by = By_Nombre, selected = True, row_idx = 0\<rparr>,
          \<lparr>pdf_name = ''GRAN-VIA'', cliente = ''Beta'', email = ''b@x.es'', score = 100,
            matched_by = By_Direccion, selected = True, row_idx = 1\<rparr>],
         [''zeta''])"
    by code_simp
  from run_matching_partition[OF d r] d r show ?thesis by simp
qed

text \<open>
  C10. With an empty recipient table the best-match search has no candidate, for
  names and for addresses alike: \<open>run_matching\<close> returns no match and every document
  name as unmatched, in the order of \<open>pdf_files\<close>.
\<close>

theorem run_matching_empty_table:
  "run_matching scorer pdf_files [] = ([], map fst pdf_files)"
proof -
  have step: "match_one scorer [] [] [] = Unmatched"
    by (rule ext) (simp add: match_one_def extractOne_def accepted_def)
  have loop: "matching_loop Unmatched names (ms, us) = (ms, us @ names)" for names ms us
    by (induction names arbitrary: us) simp_all
  show ?thesis by (simp add: run_matching_def step loop)
qed

subsection \<open>One document\<close>

text \<open>
  C2. For one document name the matcher scores the normalized name against the
  normalized recipient names first. If the best name score is at least 80 the result is
  a match by name that records the first index of the best score and that score; the
  addresses play no part in it. Otherwise the same search runs on the normalized
  addresses and gives a match by address when that best score is at least 80; failing
  both, the document is unmatched. Every match created is selected.
\<close>

theorem match_one_name_then_address:
  "match_one scorer df nombres_norm dirs_norm name =
     (let q = normalize name
      in if nombres_norm \<noteq> [] \<and> 80 \<le> best_score scorer q nombres_norm
         then Matched \<lparr>pdf_name = name,
                cliente = col_Nombre (df ! best_index scorer q nombres_norm),
                email = col_Email (df ! best_index scorer q nombres_norm),
                score = best_score scorer q nombres_norm,
                matched_by = By_Nombre, selected = True,
                row_idx = best_index scorer q nombres_norm\<rparr>
         else if dirs_norm \<noteq> [] \<and> 80 \<le> best_score scorer q dirs_norm
         then Matched \<lparr>pdf_name = name,
                cliente = col_Nombre (df ! best_index scorer q dirs_norm),
                email = col_Email (df ! best_index scorer q dirs_norm),
                score = best_score scorer q dirs_norm,
                matched_by = By_Direccion, selected = True,
                row_idx = best_index scorer q dirs_norm\<rparr>
         else Unmatched name)
   \<and> (\<forall>m. match_one scorer df nombres_norm dirs_norm name = Matched m \<longrightarrow> selected m)"
  by (simp add: match_one_def extractOne_best accepted_def new_match_def Let_def)


theorem match_one_name_then_address_witness:
  "match_one exact_scorer table0 [''acme'', ''beta''] [''calle uno'', ''gran via''] ''ACME''
     = Matched \<lparr>pdf_name = ''ACME'', cliente = ''Acme SL'', email = ''a@x.es'', score = 100,
         matched_by = By_Nombre, selected = True, row_idx = 0\<rparr>
   \<and> match_one exact_scorer table0 [''acme'', ''beta''] [''calle uno'', ''gran via''] ''Gran-Via''
     = Matched \<lparr>pdf_name = ''Gran-Via'', cliente = ''Beta'', email = ''b@x.es'', score = 100,
         matched_by = By_Direccion, selected = True, row_idx = 1\<rparr>
   \<and> match_one exact_scorer table0 [''acme'', ''beta''] [''calle uno'', ''gran via''] ''zeta''
     = Unmatched ''zeta''
   \<and> selected \<lparr>pdf_name = ''ACME'', cliente = ''Acme SL'', email = ''a@x.es'', score = 100,
         matched_by = By_Nombre, selected = True, row_idx = 0\<rparr>"
proof -
  let ?nn = "[''acme'', ''beta'']" and ?dn = "[''calle uno'', ''gran via'']"
  have q: "normalize ''ACME'' = ''acme''" "normalize ''Gran-Via'' = ''gran via''"
    "normalize ''zeta'' = ''zeta''"
    by code_simp+
  have s: "best_score exact_scorer ''acme'' ?nn = 100" "best_index exact_scorer ''acme'' ?nn = 0"
    "best_score exact_scorer ''gran via'' ?nn = 0" "best_score exact_scorer ''gran via'' ?dn = 100"
    "best_index exact_scorer ''gran via'' ?dn = 1"
    "best_score exact_scorer ''zeta'' ?nn = 0" "best_score exact_scorer ''zeta'' ?dn = 0"
    by code_simp+
  show ?thesis
    using match_one_name_then_address[of exact_scorer table0 ?nn ?dn "''ACME''"]
      match_one_name_then_address[of exact_scorer table0 ?nn ?dn "''Gran-Via''"]
      match_one_name_then_address[of exact_scorer table0 ?nn ?dn "''zeta''"]
    by (simp add: q s table0_def Let_def)
qed

section \<open>Properties of the dispatch\<close>

lemma operator_quiet [simp]: "\<not> cancel_click w p \<Longrightarrow> operator w p s = s"
  by (simp add: operator_def)

lemma operator_flagged [simp]:
  "st_cancel_requested s \<Longrightarrow> st_cancel_requested (operator w p s)"
  by (simp add: operator_def)

lemma operator_click: "cancel_click w p \<Longrightarrow> operator w p s = s\<lparr>st_cancel_requested := True\<rparr>"
  by (simp add: operator_def)

lemma send_item_pdf_files:
  "st_pdf_files s' = st_pdf_files s \<Longrightarrow> send_item w s' idx m = send_item w s idx m"
  by (simp add: send_item_def)

lemma send_item_split: "send_item w s idx m = (entry_of w s idx m, sends_of w s idx m)"
  by (simp add: entry_of_def sends_of_def)

text \<open>
  While no cancel action comes in, the loop goes from item \<open>idx\<close> to item \<open>j\<close>, appending
  one entry per item and pausing after each item but the last of the run.
\<close>

lemma dispatch_loop_quiet_prefix:
  assumes "\<not> st_cancel_requested s"
    and "j \<le> length sel"
    and "idx \<le> j"
    and "\<forall>p. 2 * idx \<le> p \<and> p < 2 * j \<longrightarrow> \<not> cancel_click w p"
  shows "dispatch_loop w t n idx (drop idx sel) (s, lg, ev) =
         dispatch_loop w t n j (drop j sel)
           (s, lg @ map (\<lambda>i. entry_of w s i (sel ! i)) [idx..<j],
            ev @ concat (map (\<lambda>i. sends_of w s i (sel ! i)
                               @ (if i < n - 1 then [Pause i t] else [])) [idx..<j]))"
  using assms(2-4)
proof (induction j)
  case 0
  then show ?case by simp
next
  case (Suc j)
  show ?case
  proof (cases "idx = Suc j")
    case True
    then show ?thesis by simp
  next
    case False
    with Suc.prems have le: "idx \<le> j" "j < length sel" by simp_all
    have q: "\<not> cancel_click w (2 * j)" "\<not> cancel_click w (Suc (2 * j))"
      using Suc.prems(3) le by simp_all
    have ih: "dispatch_loop w t n idx (drop idx sel) (s, lg, ev) =
         dispatch_loop w t n j (drop j sel)
           (s, lg @ map (\<lambda>i. entry_of w s i (sel ! i)) [idx..<j],
            ev @ concat (map (\<lambda>i. sends_of w s i (sel ! i)
                               @ (if i < n - 1 then [Pause i t] else [])) [idx..<j]))"
      using Suc.IH Suc.prems le by simp
    have d: "drop j sel = sel ! j # drop (Suc j) sel"
      using le by (simp add: Cons_nth_drop_Suc)
    show ?thesis
      unfolding ih d using le assms(1) q
      by (simp add: send_item_split Let_def)
  qed
qed


lemma sends_of_subset: "set (sends_of w s i m) \<subseteq> {Send i}"
  by (auto simp: sends_of_def send_item_def Let_def split: option.splits)

lemma entry_of_begin_run [simp]: "entry_of w (begin_run s) = entry_of w s"
  by (intro ext) (simp add: entry_of_def send_item_def begin_run_def)

lemma sends_of_begin_run [simp]: "sends_of w (begin_run s) = sends_of w s"
  by (intro ext) (simp add: sends_of_def send_item_def begin_run_def)

lemma entry_of_flag [simp]:
  "entry_of w (s\<lparr>st_cancel_requested := b\<rparr>) = entry_of w s"
  by (intro ext) (simp add: entry_of_def send_item_def)

lemma sends_of_flag [simp]:
  "sends_of w (s\<lparr>st_cancel_requested := b\<rparr>) = sends_of w s"
  by (intro ext) (simp add: sends_of_def send_item_def)

lemma end_run_begin_run [simp]:
  "(begin_run s)\<lparr>st_send_log := l, st_sending := False, st_cancel_requested := False\<rparr>
   = s\<lparr>st_send_log := l, st_sending := False, st_cancel_requested := False\<rparr>"
  by (simp add: begin_run_def)

lemma operator_flagged_id: "st_cancel_requested s \<Longrightarrow> operator w p s = s"
  by (cases s) (simp add: operator_def)

lemma dispatch_loop_flagged:
  "st_cancel_requested s \<Longrightarrow>
   dispatch_loop w t n idx (m # ms) (s, lg, ev) = (s, lg, ev, Cancelled)"
  by (simp add: operator_flagged_id)

text \<open>
  C4. A run in which no cancel action comes in never stops early: with \<open>n\<close> selected
  matches the log has exactly \<open>n\<close> entries, entry \<open>i\<close> for match \<open>i\<close>, the run ends
  \<open>Completed\<close>, and the pause follows every item but the last. Each entry is
  \<open>Enviado\<close> with an empty message or \<open>Error\<close>; when the transport raises for an
  item, its entry is \<open>Error\<close> with the message of the exception, and the items after it
  are processed as usual.
\<close>

theorem dispatch_without_cancellation:
  assumes "\<forall>p < 2 * length (filter selected (st_matches s)). \<not> cancel_click w p"
  shows "let sel = filter selected (st_matches s); n = length sel
         in send_handler w t s =
              (s\<lparr>st_send_log := map (\<lambda>i. entry_of w s i (sel ! i)) [0..<n],
                 st_sending := False, st_cancel_requested := False\<rparr>,
               concat (map (\<lambda>i. sends_of w s i (sel ! i)
                                  @ (if i < n - 1 then [Pause i t] else [])) [0..<n]),
               Completed)
          \<and> (\<forall>i<n. nombre_archivo (entry_of w s i (sel ! i)) = pdf_name (sel ! i)
                \<and> (estado (entry_of w s i (sel ! i)) = Enviado
                      \<and> mensaje_error (entry_of w s i (sel ! i)) = []
                    \<or> estado (entry_of w s i (sel ! i)) = Error)
                \<and> (\<forall>content msg.
                      map_of (st_pdf_files s) (pdf_name (sel ! i)) = Some content
                      \<and> transport w (email (sel ! i)) (pdf_name (sel ! i)) content = Some msg
                      \<longrightarrow> estado (entry_of w s i (sel ! i)) = Error
                          \<and> mensaje_error (entry_of w s i (sel ! i)) = msg))"
proof -
  define sel where "sel = filter selected (st_matches s)"
  have flag: "\<not> st_cancel_requested (begin_run s)" by (simp add: begin_run_def)
  have quiet: "\<forall>p. 2 * 0 \<le> p \<and> p < 2 * length sel \<longrightarrow> \<not> cancel_click w p"
    using assms by (simp add: sel_def)
  have "dispatch_loop w t (length sel) 0 (drop 0 sel) (begin_run s, [], []) =
        dispatch_loop w t (length sel) (length sel) (drop (length sel) sel)
          (begin_run s, [] @ map (\<lambda>i. entry_of w (begin_run s) i (sel ! i)) [0..<length sel],
           [] @ concat (map (\<lambda>i. sends_of w (begin_run s) i (sel ! i)
                    @ (if i < length sel - 1 then [Pause i t] else [])) [0..<length sel]))"
    by (rule dispatch_loop_quiet_prefix[OF flag _ _ quiet]) simp_all
  then have run: "send_handler w t s =
     (s\<lparr>st_send_log := map (\<lambda>i. entry_of w s i (sel ! i)) [0..<length sel],
        st_sending := False, st_cancel_requested := False\<rparr>,
      concat (map (\<lambda>i. sends_of w s i (sel ! i)
                    @ (if i < length sel - 1 then [Pause i t] else [])) [0..<length sel]),
      Completed)"
    by (simp add: send_handler_def sel_def[symmetric])
  have entries: "nombre_archivo (entry_of w s i m) = pdf_name m
      \<and> (estado (entry_of w s i m) = Enviado \<and> mensaje_error (entry_of w s i m) = []
          \<or> estado (entry_of w s i m) = Error)
      \<and> (\<forall>content msg. map_of (st_pdf_files s) (pdf_name m) = Some content
            \<and> transport w (email m) (pdf_name m) content = Some msg
            \<longrightarrow> estado (entry_of w s i m) = Error \<and> mensaje_error (entry_of w s i m) = msg)"
    for i m
    by (auto simp: entry_of_def send_item_def Let_def split: option.splits)
  show ?thesis
    unfolding Let_def sel_def[symmetric] using run entries by blast
qed


lemma flag_update_end_run [simp]:
  "(begin_run s)\<lparr>st_cancel_requested := True, st_send_log := l, st_sending := False,
                   st_cancel_requested := False\<rparr>
   = s\<lparr>st_send_log := l, st_sending := False, st_cancel_requested := False\<rparr>"
  by (simp add: begin_run_def)

text \<open>
  C3. The flag is read before each item. Let the first cancel action come in before read
  \<open>p0\<close>, so that item \<open>k = (p0 + 1) div 2\<close> is the first whose read at the top of the
  loop body sees the flag set. If there is such an item, the run ends \<open>Cancelled\<close>
  there: the log holds the entries of the items \<open>0 .. k - 1\<close> and nothing else, no item
  from \<open>k\<close> on is sent, and no pause follows an item whose throttling test saw the flag.
\<close>

theorem dispatch_cancelled:
  assumes click: "cancel_click w p0"
    and first: "\<forall>p<p0. \<not> cancel_click w p"
    and k: "k = (p0 + 1) div 2"
    and less: "k < length (filter selected (st_matches s))"
  shows "let sel = filter selected (st_matches s); n = length sel
         in send_handler w t s =
              (s\<lparr>st_send_log := map (\<lambda>i. entry_of w s i (sel ! i)) [0..<k],
                 st_sending := False, st_cancel_requested := False\<rparr>,
               concat (map (\<lambda>i. sends_of w s i (sel ! i)
                                  @ (if i < n - 1 \<and> 2 * i + 1 \<noteq> p0 then [Pause i t] else []))
                        [0..<k]),
               Cancelled)
          \<and> length (st_send_log (fst (send_handler w t s))) = k
          \<and> (\<forall>i\<ge>k. Send i \<notin> set (fst (snd (send_handler w t s))))"
proof -
  define sel where "sel = filter selected (st_matches s)"
  define n where "n = length sel"
  let ?E = "\<lambda>i. entry_of w s i (sel ! i)"
  let ?V = "\<lambda>i. sends_of w s i (sel ! i) @ (if i < n - 1 then [Pause i t] else [])"
  let ?V' = "\<lambda>i. sends_of w s i (sel ! i)
                 @ (if i < n - 1 \<and> 2 * i + 1 \<noteq> p0 then [Pause i t] else [])"
  have flag: "\<not> st_cancel_requested (begin_run s)" by (simp add: begin_run_def)
  have kn: "k < length sel" using less by (simp add: sel_def)
  have dk: "drop k sel = sel ! k # drop (Suc k) sel"
    using kn by (simp add: Cons_nth_drop_Suc)
  have run: "send_handler w t s =
     (s\<lparr>st_send_log := map ?E [0..<k], st_sending := False, st_cancel_requested := False\<rparr>,
      concat (map ?V' [0..<k]), Cancelled)"
  proof (cases "even p0")
    case True
    then have p0: "p0 = 2 * k" using k by (auto elim!: evenE)
    have quiet: "\<forall>p. 2 * 0 \<le> p \<and> p < 2 * k \<longrightarrow> \<not> cancel_click w p"
      using first p0 by simp
    have same: "concat (map ?V' [0..<k]) = concat (map ?V [0..<k])"
      using p0 by (intro arg_cong[where f = concat] map_cong) auto
    have "dispatch_loop w t n 0 (drop 0 sel) (begin_run s, [], []) =
          dispatch_loop w t n k (drop k sel)
            (begin_run s, [] @ map (\<lambda>i. entry_of w (begin_run s) i (sel ! i)) [0..<k],
             [] @ concat (map (\<lambda>i. sends_of w (begin_run s) i (sel ! i)
                      @ (if i < n - 1 then [Pause i t] else [])) [0..<k]))"
      using kn by (intro dispatch_loop_quiet_prefix[OF flag _ _ quiet]) simp_all
    also have "\<dots> = ((begin_run s)\<lparr>st_cancel_requested := True\<rparr>,
                     map ?E [0..<k], concat (map ?V [0..<k]), Cancelled)"
      unfolding dk using click p0 by (simp add: operator_click)
    finally have "send_handler w t s =
       (s\<lparr>st_send_log := map ?E [0..<k], st_sending := False, st_cancel_requested := False\<rparr>,
        concat (map ?V [0..<k]), Cancelled)"
      by (simp add: send_handler_def sel_def[symmetric] n_def[symmetric])
    then show ?thesis unfolding same .
  next
    case False
    then obtain j where p0: "p0 = 2 * j + 1" by (auto elim!: oddE)
    with k have kj: "k = Suc j" by simp
    have quiet: "\<forall>p. 2 * 0 \<le> p \<and> p < 2 * j \<longrightarrow> \<not> cancel_click w p"
      using first p0 by simp
    have qj: "\<not> cancel_click w (2 * j)" using first p0 by simp
    have cj: "cancel_click w (Suc (2 * j))" using click p0 by simp
    have jn: "j < length sel" using kn kj by simp
    have dj: "drop j sel = sel ! j # drop (Suc j) sel"
      using jn by (simp add: Cons_nth_drop_Suc)
    have c1: "concat (map ?V' [0..<j]) = concat (map ?V [0..<j])"
      using p0 by (intro arg_cong[where f = concat] map_cong) auto
    have c2: "?V' j = sends_of w s j (sel ! j)"
      using p0 by simp
    have "concat (map ?V' [0..<k]) = concat (map ?V' [0..<j]) @ ?V' j"
      unfolding kj by simp
    also have "\<dots> = concat (map ?V [0..<j]) @ sends_of w s j (sel ! j)"
      unfolding c1 c2 ..
    finally have same: "concat (map ?V' [0..<k])
        = concat (map ?V [0..<j]) @ sends_of w s j (sel ! j)" .
    have "dispatch_loop w t n 0 (drop 0 sel) (begin_run s, [], []) =
          dispatch_loop w t n j (drop j sel)
            (begin_run s, [] @ map (\<lambda>i. entry_of w (begin_run s) i (sel ! i)) [0..<j],
             [] @ concat (map (\<lambda>i. sends_of w (begin_run s) i (sel ! i)
                      @ (if i < n - 1 then [Pause i t] else [])) [0..<j]))"
      using jn by (intro dispatch_loop_quiet_prefix[OF flag _ _ quiet]) simp_all
    also have "\<dots> = dispatch_loop w t n (Suc j) (drop (Suc j) sel)
                      ((begin_run s)\<lparr>st_cancel_requested := True\<rparr>,
                       map ?E [0..<j] @ [?E j],
                       concat (map ?V [0..<j]) @ sends_of w s j (sel ! j))"
      unfolding dj using flag qj cj
      by (simp add: operator_click send_item_split Let_def)
    also have "\<dots> = ((begin_run s)\<lparr>st_cancel_requested := True\<rparr>,
                     map ?E [0..<j] @ [?E j],
                     concat (map ?V [0..<j]) @ sends_of w s j (sel ! j), Cancelled)"
      using dk kj by (simp add: operator_flagged_id)
    finally have "send_handler w t s =
       (s\<lparr>st_send_log := map ?E [0..<k], st_sending := False, st_cancel_requested := False\<rparr>,
        concat (map ?V [0..<j]) @ sends_of w s j (sel ! j), Cancelled)"
      by (simp add: send_handler_def sel_def[symmetric] n_def[symmetric] kj)
    then show ?thesis unfolding same .
  qed
  have sends: "Send i \<notin> set (concat (map ?V' [0..<k]))" if "k \<le> i" for i
  proof
    assume "Send i \<in> set (concat (map ?V' [0..<k]))"
    then obtain x where x: "x < k" "Send i \<in> set (?V' x)" by auto
    then have "Send i \<in> set (sends_of w s x (sel ! x))" by (auto split: if_splits)
    with sends_of_subset[of w s x "sel ! x"] have "i = x" by auto
    with x(1) that show False by simp
  qed
  show ?thesis
    unfolding Let_def sel_def[symmetric] n_def[symmetric] using run sends by simp
qed

text \<open>
  C9. On entry the run empties the log, and nothing of an earlier log survives in the
  log it leaves; after the run, \<open>Completed\<close> or \<open>Cancelled\<close> alike, \<open>sending\<close> and
  \<open>cancel_requested\<close> are both false.
\<close>

theorem send_handler_resets:
  "st_send_log (begin_run s) = [] \<and> st_sending (begin_run s)
   \<and> \<not> st_cancel_requested (begin_run s)
   \<and> \<not> st_sending (fst (send_handler w t s))
   \<and> \<not> st_cancel_requested (fst (send_handler w t s))
   \<and> st_send_log (fst (send_handler w t (s\<lparr>st_send_log := old\<rparr>)))
       = st_send_log (fst (send_handler w t s))"
proof -
  have b: "begin_run (s\<lparr>st_send_log := old\<rparr>) = begin_run s"
    by (simp add: begin_run_def)
  show ?thesis
    by (simp add: send_handler_def b Let_def split: prod.splits) (simp add: begin_run_def)
qed


lemma upt_2: "[0..<2] = [0, Suc 0]" by (simp add: numeral_2_eq_2)

lemma selected0:
  "filter selected (st_matches session0) =
     [match0 ''a'' ''a@x.es'', match0 ''b'' ''b@x.es'', match0 ''c'' ''c@x.es'',
      match0 ''d'' ''d@x.es'', match0 ''e'' ''e@x.es'']"
  by (simp add: session0_def match0_def)

theorem dispatch_cancelled_witness:
  "cancel_click (world0 (\<lambda>p. p = 3)) 3
   \<and> \<not> list_ex (cancel_click (world0 (\<lambda>p. p = 3))) [0, 1, 2]
   \<and> (2::nat) = (3 + 1) div 2
   \<and> 2 < length (filter selected (st_matches session0))
   \<and> length (filter selected (st_matches session0)) = 5
   \<and> send_handler (world0 (\<lambda>p. p = 3)) 2 session0 =
       (session0\<lparr>st_send_log :=
            [\<lparr>nombre_archivo = ''a'', email_destino = ''a@x.es'', estado = Enviado,
              mensaje_error = [], timestamp = ''t''\<rparr>,
             \<lparr>nombre_archivo = ''b'', email_destino = ''b@x.es'', estado = Enviado,
              mensaje_error = [], timestamp = ''t''\<rparr>],
          st_sending := False, st_cancel_requested := False\<rparr>,
        [Send 0, Pause 0 2, Send 1], Cancelled)"
proof -
  have h1: "cancel_click (world0 (\<lambda>p. p = 3)) 3" by (simp add: world0_def)
  have h2: "\<forall>p<3. \<not> cancel_click (world0 (\<lambda>p. p = 3)) p" by (simp add: world0_def)
  have h3: "(2::nat) = (3 + 1) div 2" by simp
  have h4: "2 < length (filter selected (st_matches session0))" by (simp add: selected0)
  show ?thesis
    using dispatch_cancelled[OF h1 h2 h3 h4, of 2] h1 h4
    by (simp add: Let_def selected0 upt_2 entry_of_def sends_of_def send_item_def
          world0_def match0_def session0_def)
qed


lemma upt_5: "[0..<5] = [0, 1, 2, 3, 4]"
  by (simp add: upt_rec)

theorem dispatch_without_cancellation_witness:
  "\<not> list_ex (cancel_click (world0 (\<lambda>p. False)))
         [0..<2 * length (filter selected (st_matches session0))]
   \<and> send_handler (world0 (\<lambda>p. False)) 2 session0 =
       (session0\<lparr>st_send_log :=
            [\<lparr>nombre_archivo = ''a'', email_destino = ''a@x.es'', estado = Enviado,
              mensaje_error = [], timestamp = ''t''\<rparr>,
             \<lparr>nombre_archivo = ''b'', email_destino = ''b@x.es'', estado = Enviado,
              mensaje_error = [], timestamp = ''t''\<rparr>,
             \<lparr>nombre_archivo = ''c'', email_destino = ''c@x.es'', estado = Error,
              mensaje_error = ''refused'', timestamp = ''t''\<rparr>,
             \<lparr>nombre_archivo = ''d'', email_destino = ''d@x.es'', estado = Enviado,
              mensaje_error = [], timestamp = ''t''\<rparr>,
             \<lparr>nombre_archivo = ''e'', email_destino = ''e@x.es'', estado = Enviado,
              mensaje_error = [], timestamp = ''t''\<rparr>],
          st_sending := False, st_cancel_requested := False\<rparr>,
        [Send 0, Pause 0 2, Send 1, Pause 1 2, Send 2, Pause 2 2, Send 3, Pause 3 2, Send 4],
        Completed)"
proof -
  have h: "\<forall>p < 2 * length (filter selected (st_matches session0)).
             \<not> cancel_click (world0 (\<lambda>p. False)) p"
    by (simp add: world0_def)
  show ?thesis
    using dispatch_without_cancellation[OF h, of 2]
    by (simp add: Let_def selected0 upt_5 entry_of_def sends_of_def send_item_def
          world0_def match0_def session0_def list_ex_iff)
qed

theorem send_handler_resets_witness:
  "st_send_log session0 \<noteq> [] \<and> st_cancel_requested session0
   \<and> st_send_log (begin_run session0) = []
   \<and> \<not> st_sending (fst (send_handler (world0 (\<lambda>p. p = 3)) 2 session0))
   \<and> \<not> st_cancel_requested (fst (send_handler (world0 (\<lambda>p. p = 3)) 2 session0))"
  using send_handler_resets[of session0 "world0 (\<lambda>p. p = 3)" 2]
  by (simp add: session0_def)

section \<open>Properties of the letter splitter\<close>

subsection \<open>Boundaries and spans\<close>

lemma indices_inicio_sorted: "sorted_wrt (<) (indices_inicio doc cif)"
  by (simp add: indices_inicio_def sorted_wrt_filter)

lemma set_indices_inicio:
  "set (indices_inicio doc cif) = {i. i < length doc \<and> str_in cif (doc ! i)}"
  by (auto simp: indices_inicio_def)

lemma indices_inicio_nth_less:
  "idx < length (indices_inicio doc cif) \<Longrightarrow> indices_inicio doc cif ! idx < length doc"
  using set_indices_inicio[of doc cif] nth_mem[of idx "indices_inicio doc cif"] by blast

lemma make_letter_span:
  assumes "idx < length (indices_inicio doc cif)"
  shows "from_page (make_letter doc cif (indices_inicio doc cif) idx) = indices_inicio doc cif ! idx"
    and "to_page (make_letter doc cif (indices_inicio doc cif) idx) =
           (if idx + 1 < length (indices_inicio doc cif)
            then indices_inicio doc cif ! (idx + 1) - 1 else length doc - 1)"
    and "from_page (make_letter doc cif (indices_inicio doc cif) idx)
           \<le> to_page (make_letter doc cif (indices_inicio doc cif) idx)"
    and "to_page (make_letter doc cif (indices_inicio doc cif) idx) < length doc"
proof -
  let ?ind = "indices_inicio doc cif"
  show "from_page (make_letter doc cif ?ind idx) = ?ind ! idx"
    by (simp add: make_letter_def Let_def)
  show t: "to_page (make_letter doc cif ?ind idx) =
           (if idx + 1 < length ?ind then ?ind ! (idx + 1) - 1 else length doc - 1)"
    by (simp add: make_letter_def Let_def)
  have lt: "?ind ! idx < length doc" using assms by (rule indices_inicio_nth_less)
  have step: "?ind ! idx < ?ind ! (idx + 1)" if "idx + 1 < length ?ind"
    using indices_inicio_sorted[of doc cif] that by (simp add: sorted_wrt_iff_nth_less)
  have lt': "?ind ! (idx + 1) < length doc" if "idx + 1 < length ?ind"
    using that by (rule indices_inicio_nth_less)
  show "from_page (make_letter doc cif ?ind idx) \<le> to_page (make_letter doc cif ?ind idx)"
    using lt step by (auto simp: make_letter_def Let_def)
  show "to_page (make_letter doc cif ?ind idx) < length doc"
    using lt lt' by (auto simp: make_letter_def Let_def)
qed

lemma split_loop_foldl:
  "idx \<le> length indices \<Longrightarrow>
   split_loop doc cif indices idx d =
     foldl store d (map (make_letter doc cif indices) [idx..<length indices])"
proof (induction doc cif indices idx d rule: split_loop.induct)
  case (1 doc cif indices idx d)
  show ?case
  proof (cases "idx < length indices")
    case True
    then have "[idx..<length indices] = idx # [Suc idx..<length indices]"
      by (simp add: upt_conv_Cons)
    with True 1 show ?thesis
      by (subst split_loop.simps) (simp add: Let_def store_def)
  next
    case False
    with 1 show ?thesis by (subst split_loop.simps) simp
  qed
qed

lemma map_of_foldl_store:
  "map_of (foldl store d ls) =
   map_of (rev (map (\<lambda>l. (nombre_limpio l, from_page l, to_page l)) ls) @ d)"
proof (induction ls arbitrary: d)
  case Nil
  then show ?case by simp
next
  case (Cons l ls)
  show ?case
    by (simp add: Cons.IH) (auto simp: store_def update_conv' map_add_def fun_eq_iff split: option.splits)
qed

lemma foldl_store_distinct:
  "distinct (map fst d @ map nombre_limpio ls) \<Longrightarrow>
   foldl store d ls = d @ map (\<lambda>l. (nombre_limpio l, from_page l, to_page l)) ls"
proof (induction ls arbitrary: d)
  case Nil
  then show ?case by simp
next
  case (Cons l ls)
  have notin: "nombre_limpio l \<notin> fst ` set d" using Cons.prems by auto
  have upd: "store d l = d @ [(nombre_limpio l, from_page l, to_page l)]"
    using notin unfolding store_def by (induction d) auto
  have "distinct (map fst (store d l) @ map nombre_limpio ls)"
    using Cons.prems by (auto simp: upd)
  from Cons.IH[OF this] show ?case by (simp add: upd)
qed


lemma split_pdf_by_cif_foldl:
  "split_pdf_by_cif doc cif = foldl store [] (letters_of doc cif)"
  by (simp add: split_pdf_by_cif_def letters_of_def Let_def split_loop_foldl)

text \<open>
  C7. The boundaries are the pages whose text contains the marker, in increasing order.
  The loop makes one letter per boundary: it starts at the boundary and ends one page
  before the next boundary, the last letter at the last page of the document; so a
  document of 6 pages with the marker on pages 0 and 3 is cut into the pages 0 to 2 and
  3 to 5. Without a boundary the result is empty. The result is a mapping from names to
  letters: it holds every letter when the names of the letters differ, and of several
  letters of the same name only the last one made.
\<close>

theorem split_pdf_by_cif_letters:
  "let indices = indices_inicio doc cif; ls = letters_of doc cif
   in sorted_wrt (<) indices
    \<and> set indices = {i. i < length doc \<and> str_in cif (doc ! i)}
    \<and> length ls = length indices
    \<and> (\<forall>idx<length indices.
          from_page (ls ! idx) = indices ! idx
        \<and> to_page (ls ! idx) =
            (if idx + 1 < length indices then indices ! (idx + 1) - 1 else length doc - 1)
        \<and> from_page (ls ! idx) \<le> to_page (ls ! idx)
        \<and> to_page (ls ! idx) < length doc)
    \<and> map_of (split_pdf_by_cif doc cif) =
        map_of (rev (map (\<lambda>l. (nombre_limpio l, from_page l, to_page l)) ls))
    \<and> (distinct (map nombre_limpio ls) \<longrightarrow>
          split_pdf_by_cif doc cif = map (\<lambda>l. (nombre_limpio l, from_page l, to_page l)) ls)
    \<and> (indices = [] \<longrightarrow> split_pdf_by_cif doc cif = [])
    \<and> (length doc = 6 \<and> indices = [0, 3] \<longrightarrow>
          map (\<lambda>l. (from_page l, to_page l)) ls = [(0, 2), (3, 5)])"
proof -
  let ?ind = "indices_inicio doc cif" and ?ls = "letters_of doc cif"
  have len: "length ?ls = length ?ind" by (simp add: letters_of_def Let_def)
  have nth: "?ls ! idx = make_letter doc cif ?ind idx" if "idx < length ?ind" for idx
    using that by (simp add: letters_of_def Let_def)
  have spans: "\<forall>idx<length ?ind.
          from_page (?ls ! idx) = ?ind ! idx
        \<and> to_page (?ls ! idx) =
            (if idx + 1 < length ?ind then ?ind ! (idx + 1) - 1 else length doc - 1)
        \<and> from_page (?ls ! idx) \<le> to_page (?ls ! idx)
        \<and> to_page (?ls ! idx) < length doc"
    using make_letter_span[of _ doc cif] by (simp add: nth)
  have m: "map_of (split_pdf_by_cif doc cif) =
        map_of (rev (map (\<lambda>l. (nombre_limpio l, from_page l, to_page l)) ?ls))"
    by (simp add: split_pdf_by_cif_foldl map_of_foldl_store)
  have d: "split_pdf_by_cif doc cif = map (\<lambda>l. (nombre_limpio l, from_page l, to_page l)) ?ls"
    if "distinct (map nombre_limpio ?ls)"
    using foldl_store_distinct[of "[]" ?ls] that by (simp add: split_pdf_by_cif_foldl)
  have e: "split_pdf_by_cif doc cif = []" if "?ind = []"
    using that by (simp add: split_pdf_by_cif_def)
  have six: "map (\<lambda>l. (from_page l, to_page l)) ?ls = [(0, 2), (3, 5)]"
    if "length doc = 6" "?ind = [0, 3]"
  proof -
    have "?ls = [make_letter doc cif [0, 3] 0, make_letter doc cif [0, 3] 1]"
      using that(2) by (simp add: letters_of_def Let_def)
    then show ?thesis using that(1) by (simp add: make_letter_def Let_def)
  qed
  show ?thesis
    unfolding Let_def
  proof (intro conjI impI)
    show "sorted_wrt (<) ?ind" by (rule indices_inicio_sorted)
    show "set ?ind = {i. i < length doc \<and> str_in cif (doc ! i)}" by (rule set_indices_inicio)
    show "length ?ls = length ?ind" by (rule len)
    show "\<forall>idx<length ?ind.
          from_page (?ls ! idx) = ?ind ! idx
        \<and> to_page (?ls ! idx) =
            (if idx + 1 < length ?ind then ?ind ! (idx + 1) - 1 else length doc - 1)
        \<and> from_page (?ls ! idx) \<le> to_page (?ls ! idx)
        \<and> to_page (?ls ! idx) < length doc" by (rule spans)
    show "map_of (split_pdf_by_cif doc cif) =
        map_of (rev (map (\<lambda>l. (nombre_limpio l, from_page l, to_page l)) ?ls))" by (rule m)
    show "split_pdf_by_cif doc cif = map (\<lambda>l. (nombre_limpio l, from_page l, to_page l)) ?ls"
      if "distinct (map nombre_limpio ?ls)" using that by (rule d)
    show "split_pdf_by_cif doc cif = []" if "?ind = []" using that by (rule e)
    show "map (\<lambda>l. (from_page l, to_page l)) ?ls = [(0, 2), (3, 5)]"
      if "length doc = 6 \<and> ?ind = [0, 3]"
      by (rule six[OF conjunct1[OF that] conjunct2[OF that]])
  qed
qed

text \<open>
  Two letters of the same name: the marker is on pages 0 and 3 of 6, and the result
  holds one letter.
\<close>

theorem split_two_letters_counterexample:
  "length (doc6 ''ACME SL'' ''ACME SL'') = 6
   \<and> indices_inicio (doc6 ''ACME SL'' ''ACME SL'') ''B73798340'' = [0, 3]
   \<and> split_pdf_by_cif (doc6 ''ACME SL'' ''ACME SL'') ''B73798340'' = [(''ACME SL'', 3, 5)]"
  by code_simp

theorem split_pdf_by_cif_letters_witness:
  "length (doc6 ''ACME SL'' ''BETA SA'') = 6
   \<and> indices_inicio (doc6 ''ACME SL'' ''BETA SA'') ''B73798340'' = [0, 3]
   \<and> distinct (map nombre_limpio (letters_of (doc6 ''ACME SL'' ''BETA SA'') ''B73798340''))
   \<and> split_pdf_by_cif (doc6 ''ACME SL'' ''BETA SA'') ''B73798340''
       = [(''ACME SL'', 0, 2), (''BETA SA'', 3, 5)]
   \<and> indices_inicio (doc6 ''ACME SL'' ''BETA SA'') ''X99'' = []
   \<and> split_pdf_by_cif (doc6 ''ACME SL'' ''BETA SA'') ''X99'' = []"
proof -
  let ?doc = "doc6 ''ACME SL'' ''BETA SA''"
  have l: "length ?doc = 6" by (simp add: doc6_def)
  have i: "indices_inicio ?doc ''B73798340'' = [0, 3]" by code_simp
  have ls: "letters_of ?doc ''B73798340'' =
     [\<lparr>nombre_limpio = ''ACME SL'', from_page = 0, to_page = 2\<rparr>,
      \<lparr>nombre_limpio = ''BETA SA'', from_page = 3, to_page = 5\<rparr>]"
    by code_simp
  have n: "indices_inicio ?doc ''X99'' = []" by code_simp
  show ?thesis
    using split_pdf_by_cif_letters[of ?doc "''B73798340''"]
      split_pdf_by_cif_letters[of ?doc "''X99''"] l i n
    by (simp add: Let_def ls)
qed

subsection \<open>The name of a letter\<close>

lemma fires_0:
  "fires cif (l # s # r) 0 = (patron_A l s \<or> patron_B cif l s)"
  by (simp add: fires_def)

lemma fires_Suc: "fires cif (l # ls) (Suc i) = fires cif ls i"
  by (simp add: fires_def)

lemma find_map_Suc:
  "find P (map Suc xs) = map_option Suc (find (\<lambda>i. P (Suc i)) xs)"
  by (induction xs) simp_all

lemma upt_0_Suc: "[0..<Suc n] = 0 # map Suc [0..<n]"
  by (metis map_Suc_upt upt_conv_Cons zero_less_Suc)

lemma find_nombre_find:
  "find_nombre cif lineas =
     (case find (fires cif lineas) [0..<length lineas] of
        None \<Rightarrow> []
      | Some i \<Rightarrow> lineas ! Suc i)"
proof (induction cif lineas rule: find_nombre.induct)
  case (1 cif)
  then show ?case by simp
next
  case (2 cif linea)
  then show ?case by (simp add: fires_def)
next
  case (3 cif linea siguiente resto)
  define ls where "ls = siguiente # resto"
  have upt: "[0..<length (linea # ls)] = 0 # map Suc [0..<length ls]"
    by (simp only: length_Cons upt_0_Suc)
  have f0: "fires cif (linea # ls) 0 = (patron_A linea siguiente \<or> patron_B cif linea siguiente)"
    by (simp add: ls_def fires_0)
  have fS: "(\<lambda>i. fires cif (linea # ls) (Suc i)) = fires cif ls"
    by (simp add: fires_Suc)
  show ?case
  proof (cases "patron_A linea siguiente \<or> patron_B cif linea siguiente")
    case True
    then have "find_nombre cif (linea # ls) = siguiente"
      by (auto simp: ls_def)
    moreover have "find (fires cif (linea # ls)) [0..<length (linea # ls)] = Some 0"
      unfolding upt using True by (simp add: f0)
    ultimately show ?thesis
      unfolding ls_def[symmetric] by (simp add: ls_def)
  next
    case False
    then have a: "find_nombre cif (linea # ls) = find_nombre cif ls"
      by (simp add: ls_def)
    have b: "find_nombre cif ls =
        (case find (fires cif ls) [0..<length ls] of None \<Rightarrow> [] | Some i \<Rightarrow> ls ! Suc i)"
      unfolding ls_def by (rule 3) (use False in auto)
    have c: "find (fires cif (linea # ls)) [0..<length (linea # ls)]
        = map_option Suc (find (fires cif ls) [0..<length ls])"
      unfolding upt using False by (simp add: f0 find_map_Suc fS)
    show ?thesis
      unfolding ls_def[symmetric] a b c
      by (cases "find (fires cif ls) [0..<length ls]") simp_all
  qed
qed


lemma lineas_of_nonempty: "l \<in> set (lineas_of texto) \<Longrightarrow> l \<noteq> []"
  by (simp add: lineas_of_def)

lemma find_fires_nonempty:
  assumes "find (fires cif (lineas_of texto)) [0..<length (lineas_of texto)] = Some i"
  shows "lineas_of texto ! Suc i \<noteq> []"
proof -
  from assms have "fires cif (lineas_of texto) i"
    by (auto simp: find_Some_iff)
  then have "Suc i < length (lineas_of texto)" by (simp add: fires_def)
  then have "lineas_of texto ! Suc i \<in> set (lineas_of texto)" by (rule nth_mem)
  then show ?thesis by (rule lineas_of_nonempty)
qed

lemma digit_char_code: "d < 10 \<Longrightarrow> (of_char (digit_char d) :: nat) = 48 + d"
  by (simp add: digit_char_def)

lemma digit_char_plain:
  assumes "d < 10"
  shows "\<not> is_illegal (digit_char d)" and "\<not> is_space (digit_char d)"
proof -
  have c: "(of_char (digit_char d) :: nat) = 48 + d" using assms by (rule digit_char_code)
  show "\<not> is_space (digit_char d)"
    using assms by (simp add: is_space_def code_def c)
  have "digit_char d \<noteq> x" if "(of_char x :: nat) < 48 \<or> 57 < (of_char x :: nat)" for x
    using that c assms by auto
  then show "\<not> is_illegal (digit_char d)"
    by (simp add: is_illegal_def)
qed

lemma decimal_3:
  assumes "n < 1000"
  shows "replicate (3 - length (decimal n)) (CHR ''0'') @ decimal n
         = [digit_char (n div 100), digit_char (n div 10 mod 10), digit_char (n mod 10)]"
proof -
  have z: "digit_char 0 = CHR ''0''" by (simp add: digit_char_def char_of_eq_iff)
  consider "n < 10" | "10 \<le> n" "n < 100" | "100 \<le> n" using assms by linarith
  then show ?thesis
  proof cases
    case 1
    then show ?thesis by (simp add: decimal.simps z numeral_3_eq_3)
  next
    case 2
    then have "n div 10 < 10" "n div 100 = 0" by simp_all
    with 2 show ?thesis
      by (simp add: decimal.simps[of n] decimal.simps[of "n div 10"] z)
  next
    case 3
    then have a: "\<not> n < 10" "\<not> n div 10 < 10" "n div 10 div 10 < 10"
      using assms by simp_all
    have b: "n div 10 div 10 = n div 100" by (simp add: div_mult2_eq[symmetric])
    show ?thesis
      using a by (simp add: decimal.simps[of n] decimal.simps[of "n div 10"]
          decimal.simps[of "n div 100"] b)
  qed
qed

lemma cliente_nnn_3:
  "idx + 1 < 1000 \<Longrightarrow>
   cliente_nnn idx = ''Cliente_'' @ [digit_char ((idx + 1) div 100),
      digit_char ((idx + 1) div 10 mod 10), digit_char ((idx + 1) mod 10)]"
  by (simp add: cliente_nnn_def Let_def decimal_3 del: replicate.simps)

lemma limpiar_cliente_nnn:
  assumes "idx + 1 < 1000"
  shows "limpiar (cliente_nnn idx) = cliente_nnn idx"
proof -
  define a b c where "a = digit_char ((idx + 1) div 100)"
    and "b = digit_char ((idx + 1) div 10 mod 10)" and "c = digit_char ((idx + 1) mod 10)"
  define S where "S = ''Cliente_'' @ [a, b, c]"
  have d: "(idx + 1) div 100 < 10" "(idx + 1) div 10 mod 10 < 10" "(idx + 1) mod 10 < 10"
    using assms by simp_all
  have plain: "\<not> is_illegal a" "\<not> is_illegal b" "\<not> is_illegal c" "\<not> is_space c"
    unfolding a_def b_def c_def using d by (simp_all add: digit_char_plain)
  have S: "cliente_nnn idx = S"
    unfolding S_def a_def b_def c_def by (rule cliente_nnn_3[OF assms])
  have ill: "filter (\<lambda>c. \<not> is_illegal c) ''Cliente_'' = ''Cliente_''"
    by (simp add: is_illegal_def)
  have f: "filter (\<lambda>c. \<not> is_illegal c) S = S"
    unfolding S_def filter_append ill using plain by simp
  have C: "\<not> is_space (CHR ''C'')" by (simp add: is_space_def code_def)
  have s1: "dropWhile is_space S = S"
    unfolding S_def using C by simp
  have "rev S = c # rev (''Cliente_'' @ [a, b])" by (simp add: S_def)
  then have s2: "dropWhile is_space (rev S) = rev S"
    using plain(4) by (simp only: dropWhile.simps if_False)
  have "length S = 11" by (simp add: S_def)
  then have t: "take 80 S = S" by simp
  show ?thesis
    unfolding S limpiar_def strip_def f s1 s2 rev_rev_ident t ..
qed

text \<open>
  C8. The name of a letter is looked for in the lines of its first page, in order. A line
  gives the name when it has a following line and either it contains "ejercicio" and
  "es de:" and the following line is not "euros" (pattern A, tried first at each line),
  or it contains the marker and the following line contains neither "Muy Sr" nor "URANO"
  (pattern B). The first line that gives a name decides, and the name is the line that
  follows it; when no line gives a name, the name is \<open>Cliente_NNN\<close>, the number of the
  letter counted from 1 and padded with zeros to 3 digits, which the cleaning of the
  name leaves as it is.
\<close>

theorem nombre_cliente_first_firing_line:
  "let lineas = lineas_of (doc ! start_page)
   in nombre_cliente_of doc cif idx start_page =
        (case find (fires cif lineas) [0..<length lineas] of
           None \<Rightarrow> cliente_nnn idx
         | Some i \<Rightarrow> lineas ! Suc i)
    \<and> (idx + 1 < 1000 \<longrightarrow>
          cliente_nnn idx = ''Cliente_'' @ [digit_char ((idx + 1) div 100),
             digit_char ((idx + 1) div 10 mod 10), digit_char ((idx + 1) mod 10)]
        \<and> limpiar (cliente_nnn idx) = cliente_nnn idx)"
proof -
  let ?lineas = "lineas_of (doc ! start_page)"
  have "nombre_cliente_of doc cif idx start_page =
        (case find (fires cif ?lineas) [0..<length ?lineas] of
           None \<Rightarrow> cliente_nnn idx
         | Some i \<Rightarrow> ?lineas ! Suc i)"
  proof (cases "find (fires cif ?lineas) [0..<length ?lineas]")
    case None
    then show ?thesis by (simp add: nombre_cliente_of_def find_nombre_find)
  next
    case (Some i)
    with find_fires_nonempty[OF Some] show ?thesis
      by (simp add: nombre_cliente_of_def find_nombre_find)
  qed
  then show ?thesis
    unfolding Let_def using cliente_nnn_3[of idx] limpiar_cliente_nnn[of idx] by blast
qed


text \<open>
  Pattern B as a fallback on the first marker line only, against the loop: on the first
  page the loop takes the line after the second marker line, on the second page the line
  after the marker line although pattern A accepts further down.
\<close>

theorem label_inference_counterexample:
  "lineas_of page_two_markers = [''B73798340'', ''URANO SL'', ''CIF B73798340'', ''ACME'']
   \<and> nombre_cliente_of [page_two_markers] ''B73798340'' 0 0 = ''ACME''
   \<and> spec_label ''B73798340'' 0 (lineas_of page_two_markers) = ''Cliente_001''
   \<and> lineas_of page_marker_first
       = [''B73798340'', ''ACME'', ''Saldo ejercicio 2023 es de:'', ''BETA'']
   \<and> nombre_cliente_of [page_marker_first] ''B73798340'' 0 0 = ''ACME''
   \<and> spec_label ''B73798340'' 0 (lineas_of page_marker_first) = ''BETA''"
  by code_simp

theorem nombre_cliente_first_firing_line_witness:
  "find (fires ''B73798340'' (lineas_of ([page_two_markers] ! 0)))
        [0..<length (lineas_of ([page_two_markers] ! 0))] = Some 2
   \<and> nombre_cliente_of [page_two_markers] ''B73798340'' 0 0 = ''ACME''
   \<and> find (fires ''B73798340'' (lineas_of ([''B73798340''] ! 0)))
        [0..<length (lineas_of ([''B73798340''] ! 0))] = None
   \<and> nombre_cliente_of [''B73798340''] ''B73798340'' 6 0 = ''Cliente_007''
   \<and> (6::nat) + 1 < 1000
   \<and> cliente_nnn 6 = ''Cliente_007''
   \<and> limpiar (cliente_nnn 6) = ''Cliente_007''"
proof -
  have f1: "find (fires ''B73798340'' (lineas_of ([page_two_markers] ! 0)))
        [0..<length (lineas_of ([page_two_markers] ! 0))] = Some 2"
    by code_simp
  have l1: "lineas_of ([page_two_markers] ! 0) ! Suc 2 = ''ACME''"
    by code_simp
  have f2: "find (fires ''B73798340'' (lineas_of ([''B73798340''] ! 0)))
        [0..<length (lineas_of ([''B73798340''] ! 0))] = None"
    by code_simp
  have c: "cliente_nnn 6 = ''Cliente_007''" by code_simp
  have h: "(6::nat) + 1 < 1000" by simp
  have n1: "nombre_cliente_of [page_two_markers] ''B73798340'' 0 0
      = lineas_of ([page_two_markers] ! 0) ! Suc 2"
    using nombre_cliente_first_firing_line[of "[page_two_markers]" 0 "''B73798340''" 0]
    unfolding Let_def f1 option.case by (rule conjunct1)
  have r1: "nombre_cliente_of [page_two_markers] ''B73798340'' 0 0 = ''ACME''"
    using n1 unfolding l1 .
  have n2: "nombre_cliente_of [''B73798340''] ''B73798340'' 6 0 = cliente_nnn 6"
    using nombre_cliente_first_firing_line[of "[''B73798340'']" 0 "''B73798340''" 6]
    unfolding Let_def f2 option.case by (rule conjunct1)
  have r2: "nombre_cliente_of [''B73798340''] ''B73798340'' 6 0 = ''Cliente_007''"
    using n2 unfolding c .
  have "limpiar (cliente_nnn 6) = cliente_nnn 6"
    using nombre_cliente_first_firing_line[of "[''B73798340'']" 0 "''B73798340''" 6] h
    unfolding Let_def by blast
  then have r3: "limpiar (cliente_nnn 6) = ''Cliente_007''"
    using c by (rule trans)
  show ?thesis
    by (intro conjI f1 r1 f2 r2 h c r3)
qed

section \<open>Properties of the normalizer\<close>

text \<open>
  C5. The two names of the example do not normalize to the same string. The dotted
  alternatives of the pattern end in a dot and are followed by \<open>\b\<close>, which holds after
  a dot only before a word character; in "acme, s.l." the suffix ends the string, so it
  is not removed and its letters stay, whereas "sl" in "acme sl" is removed.
\<close>

theorem normalize_acme_differs:
  "normalize ''Acme, S.L.'' = ''acme s l'' \<and> normalize ''acme sl'' = ''acme''
   \<and> normalize ''Acme, S.L.'' \<noteq> normalize ''acme sl''"
proof -
  have a: "normalize ''Acme, S.L.'' = ''acme s l''" by code_simp
  have b: "normalize ''acme sl'' = ''acme''" by code_simp
  show ?thesis unfolding a b by simp
qed

end
